theory Spec2Isabelle
  imports
    Complex_Main
    "HOL-Library.Char_ord"
    "HOL-Library.List_Lexorder"
    "HOL-Library.Multiset"
begin

section \<open>Data model of \<open>src/src/App.jsx\<close>\<close>

text \<open>
  A JavaScript string is a sequence of code units. The model takes the code units from
  the Latin-1 range (\<open>0..255\<close>), which is closed under \<open>toLowerCase\<close> and \<open>trim\<close>,
  so a string is a \<^typ>\<open>string\<close>; \<open><\<close> on strings is the lexicographic order on
  code units, as JavaScript's relational comparison of two strings is.

  A task is a plain object read from a form or from \<open>JSON.parse\<close>. Every property the
  code reads is a string or is absent (\<open>undefined\<close>): \<open>None\<close> is the absent property.
  On this universe \<open>===\<close> is equality of \<^typ>\<open>string option\<close>.
\<close>

record task =
  task_id :: "string option"
  title :: "string option"
  description :: "string option"
  status :: "string option"
  priority :: "string option"
  dueDate :: "string option"

text \<open>What a JavaScript expression of the file can throw.\<close>

datatype js_error = TypeError | SyntaxError | DOMException

text \<open>\<open>!v\<close> for a value that is a string or \<open>undefined\<close>.\<close>

fun falsy :: "string option \<Rightarrow> bool" where
  "falsy None = True"
| "falsy (Some s) = (s = [])"

section \<open>Task repository (\<open>useTasks\<close>, lines 46-83)\<close>

text \<open>
  \<open>addTask\<close>: the fresh id (\<open>Date.now().toString(36) + Math.random()...\<close>) is an input
  of the model; \<open>{...newTaskData, id}\<close> overrides the id of the form values.
\<close>

definition addTask :: "string \<Rightarrow> task list \<Rightarrow> task \<Rightarrow> task list" where
  "addTask fresh prev newTaskData = prev @ [newTaskData\<lparr>task_id := Some fresh\<rparr>]"

definition updateTask :: "task list \<Rightarrow> task \<Rightarrow> task list" where
  "updateTask prev updatedTask =
     map (\<lambda>t. if task_id t = task_id updatedTask then updatedTask else t) prev"

definition deleteTask :: "task list \<Rightarrow> string option \<Rightarrow> task list" where
  "deleteTask prev taskId = filter (\<lambda>t. task_id t \<noteq> taskId) prev"

text \<open>
  The initial state (lines 48-56). \<open>localStorage.getItem\<close> and \<open>JSON.parse\<close> belong to
  the platform and are inputs of the model: \<open>getItem\<close> returns the stored text, \<open>None\<close>
  (\<open>null\<close>) for a missing key, or throws; \<open>JSON.parse\<close> returns the value the text
  denotes or throws a \<open>SyntaxError\<close>. A parsed array is read as a list of tasks; any other
  parsed value is \<open>JNotArray\<close>. The \<open>try\<close>/\<open>catch\<close> is the outer \<open>case\<close>.
\<close>

datatype json_value = JArray "task list" | JNotArray

definition localStorageKey :: string where
  "localStorageKey = ''reactTaskApp_tasks''"

definition loadTasks ::
  "(string \<Rightarrow> js_error + string option) \<Rightarrow> (string \<Rightarrow> js_error + json_value)
     \<Rightarrow> js_error + json_value" where
  "loadTasks getItem JSON_parse =
     (case (case getItem localStorageKey of
              Inl e \<Rightarrow> Inl e
            | Inr storedTasks \<Rightarrow>
                if \<not> falsy storedTasks then JSON_parse (the storedTasks) else Inr (JArray []))
      of Inl error \<Rightarrow> Inr (JArray [])
       | Inr v \<Rightarrow> Inr v)"

text \<open>\<open>tasks.find(t => t.id === selectedTaskId)\<close> (lines 504 and 590).\<close>

fun findTask :: "task list \<Rightarrow> string option \<Rightarrow> task option" where
  "findTask [] i = None"
| "findTask (t # ts) i = (if task_id t = i then Some t else findTask ts i)"

section \<open>Strings\<close>

text \<open>
  \<open>String.prototype.toLowerCase\<close> on Latin-1 code units: \<open>A..Z\<close> and the accented
  capitals \<open>0xC0..0xDE\<close> (without the multiplication sign \<open>0xD7\<close>) move up by 32, every
  other code unit stays.
\<close>

definition toLowerCase_char :: "char \<Rightarrow> char" where
  "toLowerCase_char c =
     (let n = (of_char c :: nat)
      in if (65 \<le> n \<and> n \<le> 90) \<or> (192 \<le> n \<and> n \<le> 222 \<and> n \<noteq> 215)
         then char_of (n + 32) else c)"

definition toLowerCase :: "string \<Rightarrow> string" where
  "toLowerCase s = map toLowerCase_char s"

text \<open>
  White space and line terminators of ECMAScript in the Latin-1 range: TAB, LF, VT, FF,
  CR, SP and NBSP. \<open>trim\<close> removes them from both ends.
\<close>

definition isWhiteSpace :: "char \<Rightarrow> bool" where
  "isWhiteSpace c = ((of_char c :: nat) \<in> {9, 10, 11, 12, 13, 32, 160})"

definition trim :: "string \<Rightarrow> string" where
  "trim s = rev (dropWhile isWhiteSpace (rev (dropWhile isWhiteSpace s)))"

text \<open>\<open>String.prototype.includes\<close>: the argument occurs at some position of the string.\<close>

fun startsWith :: "string \<Rightarrow> string \<Rightarrow> bool" where
  "startsWith s [] = True"
| "startsWith [] (c # cs) = False"
| "startsWith (x # xs) (c # cs) = (x = c \<and> startsWith xs cs)"

fun includes_str :: "string \<Rightarrow> string \<Rightarrow> bool" where
  "includes_str [] sub = (sub = [])"
| "includes_str (x # xs) sub = (startsWith (x # xs) sub \<or> includes_str xs sub)"

section \<open>Form validation (\<open>validateTaskForm\<close>, lines 139-156)\<close>

text \<open>
  The form values have the shape of a task. The result is the \<open>errors\<close> object: a map
  from property name to message, with no entry for a field that passed.
\<close>

definition validateTaskForm :: "task \<Rightarrow> (string \<rightharpoonup> string)" where
  "validateTaskForm values =
     (let errors = Map.empty;
          errors =
            (if falsy (title values) \<or> trim (the (title values)) = []
             then errors(''title'' \<mapsto> ''Title is required.'')
             else if length (the (title values)) < 3
             then errors(''title'' \<mapsto> ''Title must be at least 3 characters.'')
             else errors);
          errors =
            (if falsy (description values) \<or> trim (the (description values)) = []
             then errors(''description'' \<mapsto> ''Description is required.'')
             else errors);
          errors =
            (if falsy (dueDate values)
             then errors(''dueDate'' \<mapsto> ''Due Date is required.'')
             else errors)
      in errors)"

section \<open>List derivation (\<open>TaskList\<close>, lines 287-339)\<close>

subsection \<open>Sorting (\<open>sortedTasks\<close>, lines 296-312)\<close>

text \<open>
  The sortable column headers (line 357-362); \<open>sortConfig.key\<close> is one of them, and the
  guard \<open>if (sortConfig.key)\<close> is the \<open>None\<close> case. A direction other than \<open>'asc'\<close>
  takes the comparator's other branches, so two directions suffice.
\<close>

datatype sort_key = KeyTitle | KeyStatus | KeyPriority | KeyDueDate

datatype sort_direction = Asc | Desc

record sortConfig =
  key :: "sort_key option"
  direction :: sort_direction

text \<open>\<open>a[sortConfig.key]\<close>.\<close>

fun property :: "sort_key \<Rightarrow> task \<Rightarrow> string option" where
  "property KeyTitle t = title t"
| "property KeyStatus t = status t"
| "property KeyPriority t = priority t"
| "property KeyDueDate t = dueDate t"

text \<open>\<open>v || ''\<close>.\<close>

definition orEmpty :: "string option \<Rightarrow> string" where
  "orEmpty v = (if falsy v then [] else the v)"

text \<open>The comparator of lines 299-309.\<close>

definition compareTasks :: "sort_key \<Rightarrow> sort_direction \<Rightarrow> task \<Rightarrow> task \<Rightarrow> int" where
  "compareTasks k d a b =
     (let aValue = orEmpty (property k a);
          bValue = orEmpty (property k b)
      in if aValue < bValue then (if d = Asc then - 1 else 1)
         else if aValue > bValue then (if d = Asc then 1 else - 1)
         else 0)"

text \<open>
  The value a task is sorted by (\<open>aValue\<close>, \<open>bValue\<close> of the comparator), and the
  order the direction asks for between the values of two neighbours.
\<close>

definition sortValue :: "sort_key \<Rightarrow> task \<Rightarrow> string" where
  "sortValue k t = orEmpty (property k t)"

definition inOrder :: "sort_direction \<Rightarrow> string \<Rightarrow> string \<Rightarrow> bool" where
  "inOrder d u v = (if d = Asc then u \<le> v else v \<le> u)"

text \<open>
  \<open>Array.prototype.sort(comparefn)\<close>. ECMAScript requires the sort to be stable; for a
  consistent comparator its result is the one stable sorted permutation, whatever the
  engine's algorithm. The model computes it by insertion from the right: an element goes
  in front of the first element it does not compare greater than.
\<close>

fun insert_sorted :: "('a \<Rightarrow> 'a \<Rightarrow> int) \<Rightarrow> 'a \<Rightarrow> 'a list \<Rightarrow> 'a list" where
  "insert_sorted cmp x [] = [x]"
| "insert_sorted cmp x (y # ys) =
     (if cmp x y \<le> 0 then x # y # ys else y # insert_sorted cmp x ys)"

definition array_sort :: "('a \<Rightarrow> 'a \<Rightarrow> int) \<Rightarrow> 'a list \<Rightarrow> 'a list" where
  "array_sort cmp xs = foldr (insert_sorted cmp) xs []"

definition sortedTasks :: "task list \<Rightarrow> sortConfig \<Rightarrow> task list" where
  "sortedTasks tasks cfg =
     (let sortableTasks = tasks
      in case key cfg of
           None \<Rightarrow> sortableTasks
         | Some k \<Rightarrow> array_sort (compareTasks k (direction cfg)) sortableTasks)"

subsection \<open>Searching (\<open>filteredTasks\<close>, lines 314-325)\<close>

text \<open>
  \<open>task.title.toLowerCase().includes(lowerCaseSearch)\<close>: calling \<open>toLowerCase\<close> on an
  absent property throws a \<open>TypeError\<close>.
\<close>

definition propertyIncludes :: "string option \<Rightarrow> string \<Rightarrow> js_error + bool" where
  "propertyIncludes v lowerCaseSearch =
     (case v of
        None \<Rightarrow> Inl TypeError
      | Some s \<Rightarrow> Inr (includes_str (toLowerCase s) lowerCaseSearch))"

text \<open>\<open>a || b\<close> on booleans: \<open>b\<close> is evaluated only when \<open>a\<close> returned \<open>false\<close>.\<close>

definition orElse :: "js_error + bool \<Rightarrow> js_error + bool \<Rightarrow> js_error + bool" where
  "orElse a b = (case a of Inl e \<Rightarrow> Inl e | Inr True \<Rightarrow> Inr True | Inr False \<Rightarrow> b)"

definition matchesSearch :: "string \<Rightarrow> task \<Rightarrow> js_error + bool" where
  "matchesSearch lowerCaseSearch t =
     orElse (propertyIncludes (title t) lowerCaseSearch)
       (orElse (propertyIncludes (description t) lowerCaseSearch)
         (orElse (propertyIncludes (status t) lowerCaseSearch)
           (propertyIncludes (priority t) lowerCaseSearch)))"

text \<open>
  \<open>Array.prototype.filter\<close> calls the predicate on the elements from left to right; an
  exception of the predicate ends the call.
\<close>

fun filter_js :: "('a \<Rightarrow> js_error + bool) \<Rightarrow> 'a list \<Rightarrow> js_error + 'a list" where
  "filter_js p [] = Inr []"
| "filter_js p (x # xs) =
     (case p x of
        Inl e \<Rightarrow> Inl e
      | Inr b \<Rightarrow>
          (case filter_js p xs of
             Inl e \<Rightarrow> Inl e
           | Inr ys \<Rightarrow> Inr (if b then x # ys else ys)))"

definition filteredTasks :: "task list \<Rightarrow> string \<Rightarrow> js_error + task list" where
  "filteredTasks sortedList searchTerm =
     (if searchTerm = [] then Inr sortedList
      else let lowerCaseSearch = toLowerCase searchTerm
           in filter_js (matchesSearch lowerCaseSearch) sortedList)"

text \<open>A task whose four searched properties are all present.\<close>

definition searchable :: "task \<Rightarrow> bool" where
  "searchable t =
     (title t \<noteq> None \<and> description t \<noteq> None \<and> status t \<noteq> None \<and> priority t \<noteq> None)"

text \<open>
  None of the searched properties that are present contains the search term: on such a
  task the chain of \<open>||\<close> evaluates every property.
\<close>

definition noPresentMatch :: "string \<Rightarrow> task \<Rightarrow> bool" where
  "noPresentMatch l t =
     (list_all (\<lambda>v. case v of None \<Rightarrow> True | Some x \<Rightarrow> \<not> includes_str (toLowerCase x) l)
        [title t, description t, status t, priority t])"

subsection \<open>Paging (\<open>totalPages\<close>, \<open>currentTasks\<close> and the correcting effect, lines 327-339)\<close>

definition tasksPerPage :: int where
  "tasksPerPage = 5"

text \<open>
  \<open>Math.ceil(filteredTasks.length / tasksPerPage)\<close>. An array is shorter than \<open>2^32\<close>, so
  the quotient of the two doubles is within a quarter of the exact one and never crosses
  an integer: the exact ceiling is the value computed.
\<close>

definition totalPages :: "task list \<Rightarrow> int" where
  "totalPages filtered = \<lceil>real (length filtered) / real_of_int tasksPerPage\<rceil>"

text \<open>
  \<open>Array.prototype.slice(start, end)\<close> for integers: a negative index counts from the
  end, and both are clamped to the array.
\<close>

definition slice :: "'a list \<Rightarrow> int \<Rightarrow> int \<Rightarrow> 'a list" where
  "slice xs start endIndex =
     (let len = int (length xs);
          k = (if start < 0 then max (len + start) 0 else min start len);
          final = (if endIndex < 0 then max (len + endIndex) 0 else min endIndex len)
      in take (nat (final - k)) (drop (nat k) xs))"

definition currentTasks :: "task list \<Rightarrow> int \<Rightarrow> task list" where
  "currentTasks filtered currentPage =
     (let startIndex = (currentPage - 1) * tasksPerPage
      in slice filtered startIndex (startIndex + tasksPerPage))"

text \<open>The effect of lines 333-339, as the page number it leaves.\<close>

definition pageCorrection :: "int \<Rightarrow> int \<Rightarrow> int" where
  "pageCorrection pages currentPage =
     (if currentPage > pages \<and> pages > 0 then pages
      else if pages = 0 then 1
      else currentPage)"

text \<open>
  The other writers of \<open>currentPage\<close>: the search box (line 375), the Previous and Next
  buttons (lines 457 and 480) and the numbered buttons (line 467). The pagination bar is
  rendered only when \<open>totalPages > 1\<close> (line 450), with buttons for \<open>1..totalPages\<close>.
  \<open>reachablePage\<close> collects the page numbers these writers and the effect can produce
  from the initial page 1.
\<close>

definition previousPage :: "int \<Rightarrow> int" where
  "previousPage prev = max 1 (prev - 1)"

definition nextPage :: "int \<Rightarrow> int \<Rightarrow> int" where
  "nextPage pages prev = min pages (prev + 1)"

inductive reachablePage :: "int \<Rightarrow> bool" where
  initial: "reachablePage 1"
| search: "reachablePage p \<Longrightarrow> reachablePage 1"
| previous: "reachablePage p \<Longrightarrow> reachablePage (previousPage p)"
| "next": "reachablePage p \<Longrightarrow> 1 < totalPages fs \<Longrightarrow> reachablePage (nextPage (totalPages fs) p)"
| numbered: "1 < totalPages fs \<Longrightarrow> 1 \<le> page \<Longrightarrow> page \<le> totalPages fs \<Longrightarrow> reachablePage page"
| effect: "reachablePage p \<Longrightarrow> reachablePage (pageCorrection (totalPages fs) p)"

text \<open>What one render of \<open>TaskList\<close> puts in the table: the page, or the exception.\<close>

definition displayedPage ::
  "task list \<Rightarrow> string \<Rightarrow> sortConfig \<Rightarrow> int \<Rightarrow> js_error + task list" where
  "displayedPage tasks searchTerm cfg currentPage =
     (case filteredTasks (sortedTasks tasks cfg) searchTerm of
        Inl e \<Rightarrow> Inl e
      | Inr filtered \<Rightarrow> Inr (currentTasks filtered currentPage))"

subsection \<open>The list derivation as the specification words it (section 4.4)\<close>

text \<open>
  A pure function of the tasks, the search term, the sort key and direction, the page
  number and the page size. It shares no step with the code above; only the lower-casing
  of a string and the record of a task are common to both.

  Filter: with a non-empty search term, keep the tasks where the lower-cased term is a
  substring of the lower-cased title, description, status or priority; an absent
  property has no text and so contains nothing. The empty term keeps every task.
\<close>

definition spec_substring :: "string \<Rightarrow> string \<Rightarrow> bool" where
  "spec_substring sub s =
     list_ex (\<lambda>i. take (length sub) (drop i s) = sub) [0 ..< Suc (length s)]"

definition spec_matches :: "string \<Rightarrow> task \<Rightarrow> bool" where
  "spec_matches searchTerm t =
     list_ex
       (\<lambda>v. case v of
              None \<Rightarrow> False
            | Some x \<Rightarrow> spec_substring (toLowerCase searchTerm) (toLowerCase x))
       [title t, description t, status t, priority t]"

definition spec_filter :: "string \<Rightarrow> task list \<Rightarrow> task list" where
  "spec_filter searchTerm tasks =
     (if searchTerm = [] then tasks else filter (spec_matches searchTerm) tasks)"

text \<open>
  Sort: stable, on the text of the selected field, a missing value read as the empty
  string, in lexicographic order, ascending or descending. The ascending sort is the
  stable \<^const>\<open>sort_key\<close> of the list library; the descending one sorts the reversed
  list and reverses the result, which keeps tasks of equal text in their given order.
\<close>

fun spec_text :: "sort_key \<Rightarrow> task \<Rightarrow> string" where
  "spec_text KeyTitle t = (case title t of None \<Rightarrow> [] | Some s \<Rightarrow> s)"
| "spec_text KeyStatus t = (case status t of None \<Rightarrow> [] | Some s \<Rightarrow> s)"
| "spec_text KeyPriority t = (case priority t of None \<Rightarrow> [] | Some s \<Rightarrow> s)"
| "spec_text KeyDueDate t = (case dueDate t of None \<Rightarrow> [] | Some s \<Rightarrow> s)"

definition spec_sort :: "sort_key \<Rightarrow> sort_direction \<Rightarrow> task list \<Rightarrow> task list" where
  "spec_sort k d tasks =
     (case d of
        Asc \<Rightarrow> sort_key (spec_text k) tasks
      | Desc \<Rightarrow> rev (sort_key (spec_text k) (rev tasks)))"

text \<open>Paginate: the elements at the indices from \<open>(page - 1) * pageSize\<close> up to,
  not including, \<open>page * pageSize\<close>.\<close>

definition spec_slice :: "'a list \<Rightarrow> int \<Rightarrow> int \<Rightarrow> 'a list" where
  "spec_slice xs lo hi =
     map (\<lambda>i. xs ! i) (filter (\<lambda>i. lo \<le> int i \<and> int i < hi) [0 ..< length xs])"

definition spec_pipeline ::
  "task list \<Rightarrow> string \<Rightarrow> sort_key \<Rightarrow> sort_direction \<Rightarrow> int \<Rightarrow> int \<Rightarrow> task list" where
  "spec_pipeline tasks searchTerm k d page pageSize =
     spec_slice (spec_sort k d (spec_filter searchTerm tasks))
       ((page - 1) * pageSize) (page * pageSize)"

text \<open>Sample records for the concrete instances below.\<close>

definition mkTask :: "string \<Rightarrow> string \<Rightarrow> string \<Rightarrow> string \<Rightarrow> string \<Rightarrow> string \<Rightarrow> task" where
  "mkTask i ti de st pr du =
     \<lparr>task_id = Some i, title = Some ti, description = Some de, status = Some st,
      priority = Some pr, dueDate = Some du\<rparr>"

definition taskA :: task where
  "taskA = mkTask ''a1'' ''Write report'' ''quarterly numbers'' ''Pending'' ''High'' ''2024-05-02''"

definition taskB :: task where
  "taskB = mkTask ''b2'' ''Book flights'' ''conference trip'' ''In Progress'' ''Low'' ''2024-04-11''"

definition taskC :: task where
  "taskC = mkTask ''c3'' ''Archive mail'' ''inbox cleanup'' ''Completed'' ''Medium'' ''2024-05-02''"

section \<open>Properties of the task repository\<close>

lemma deleteTask_absent:
  "i \<notin> task_id ` set ts \<Longrightarrow> deleteTask ts i = ts"
  unfolding deleteTask_def by (induction ts) auto

lemma deleteTask_split:
  "distinct (map task_id ts) \<Longrightarrow> i \<in> task_id ` set ts \<Longrightarrow>
     \<exists>pre t post. ts = pre @ t # post \<and> task_id t = i \<and> deleteTask ts i = pre @ post"
proof (induction ts)
  case Nil
  then show ?case by simp
next
  case (Cons a ts)
  show ?case
  proof (cases "task_id a = i")
    case True
    with Cons.prems(1) have "i \<notin> task_id ` set ts" by auto
    then have "deleteTask ts i = ts" by (rule deleteTask_absent)
    with True have "a # ts = [] @ a # ts \<and> task_id a = i \<and> deleteTask (a # ts) i = [] @ ts"
      by (simp add: deleteTask_def)
    then show ?thesis by blast
  next
    case False
    with Cons.prems have "distinct (map task_id ts)" and "i \<in> task_id ` set ts" by auto
    from Cons.IH [OF this] obtain pre t post
      where "ts = pre @ t # post" "task_id t = i" "deleteTask ts i = pre @ post" by blast
    with False have "a # ts = (a # pre) @ t # post \<and> task_id t = i
        \<and> deleteTask (a # ts) i = (a # pre) @ post"
      by (simp add: deleteTask_def)
    then show ?thesis by blast
  qed
qed

lemma findTask_updateTask:
  "task_id u \<in> task_id ` set ts \<Longrightarrow> findTask (updateTask ts u) (task_id u) = Some u"
  unfolding updateTask_def by (induction ts) auto

lemma updateTask_absent:
  "task_id u \<notin> task_id ` set ts \<Longrightarrow> updateTask ts u = ts"
  unfolding updateTask_def by (induction ts) auto

text \<open>
  The operations of the repository keep the ids unique; \<open>addTask\<close> does when the
  generated id is new.
\<close>

lemma map_task_id_updateTask: "map task_id (updateTask ts u) = map task_id ts"
  by (induction ts) (simp_all add: updateTask_def)

lemma distinct_ids_updateTask:
  "distinct (map task_id ts) \<Longrightarrow> distinct (map task_id (updateTask ts u))"
  by (simp add: map_task_id_updateTask)

lemma distinct_ids_deleteTask:
  "distinct (map task_id ts) \<Longrightarrow> distinct (map task_id (deleteTask ts i))"
  by (simp add: deleteTask_def distinct_map_filter)

lemma distinct_ids_addTask:
  "distinct (map task_id ts) \<Longrightarrow> Some fresh \<notin> task_id ` set ts \<Longrightarrow>
     distinct (map task_id (addTask fresh ts d))"
  by (auto simp: addTask_def)

text \<open>
  C8. \<open>deleteTask\<close> is idempotent, changes nothing when no record has the id, and, in a
  collection whose ids are unique (the invariant of the data model), removes exactly one
  record: the collection splits around the one record with the id, and the result is the
  collection without it, one record shorter.
\<close>

theorem deleteTask_removes_one_idempotent:
  "deleteTask (deleteTask ts i) i = deleteTask ts i
   \<and> (i \<notin> task_id ` set ts \<longrightarrow> deleteTask ts i = ts)
   \<and> (distinct (map task_id ts) \<and> i \<in> task_id ` set ts \<longrightarrow>
        length (deleteTask ts i) + 1 = length ts
        \<and> (\<exists>pre t post. ts = pre @ t # post \<and> task_id t = i
              \<and> deleteTask ts i = pre @ post))"
proof (intro conjI impI)
  show "deleteTask (deleteTask ts i) i = deleteTask ts i"
    by (simp add: deleteTask_def)
next
  assume "i \<notin> task_id ` set ts"
  then show "deleteTask ts i = ts" by (rule deleteTask_absent)
next
  assume h: "distinct (map task_id ts) \<and> i \<in> task_id ` set ts"
  then obtain pre t post
    where s: "ts = pre @ t # post" "task_id t = i" "deleteTask ts i = pre @ post"
    using deleteTask_split by blast
  then show "length (deleteTask ts i) + 1 = length ts" by simp
  from s show "\<exists>pre t post. ts = pre @ t # post \<and> task_id t = i
      \<and> deleteTask ts i = pre @ post" by blast
qed

theorem deleteTask_removes_one_idempotent_witness:
  "distinct (map task_id [taskA, taskB, taskC])
   \<and> Some ''b2'' \<in> task_id ` set [taskA, taskB, taskC]
   \<and> Some ''zz'' \<notin> task_id ` set [taskA, taskB, taskC]
   \<and> deleteTask [taskA, taskB, taskC] (Some ''zz'') = [taskA, taskB, taskC]
   \<and> length (deleteTask [taskA, taskB, taskC] (Some ''b2'')) + 1 = length [taskA, taskB, taskC]
   \<and> deleteTask (deleteTask [taskA, taskB, taskC] (Some ''b2'')) (Some ''b2'')
       = deleteTask [taskA, taskB, taskC] (Some ''b2'')"
  using deleteTask_removes_one_idempotent [of "[taskA, taskB, taskC]" "Some ''b2''"]
    deleteTask_removes_one_idempotent [of "[taskA, taskB, taskC]" "Some ''zz''"]
  by (simp add: taskA_def taskB_def taskC_def mkTask_def)

text \<open>
  C9. After \<open>updateTask\<close> a lookup by the id of the new record returns exactly that
  record when some record had the id; the collection keeps its length, every record with
  another id stays where it was, unchanged; with no record of that id the collection is
  unchanged.
\<close>

theorem updateTask_frame:
  "(task_id u \<in> task_id ` set ts \<longrightarrow> findTask (updateTask ts u) (task_id u) = Some u)
   \<and> length (updateTask ts u) = length ts
   \<and> (\<forall>n < length ts. task_id (ts ! n) \<noteq> task_id u \<longrightarrow> updateTask ts u ! n = ts ! n)
   \<and> (\<forall>n < length ts. task_id (ts ! n) = task_id u \<longrightarrow> updateTask ts u ! n = u)
   \<and> (task_id u \<notin> task_id ` set ts \<longrightarrow> updateTask ts u = ts)"
proof (intro conjI impI allI)
  assume "task_id u \<in> task_id ` set ts"
  then show "findTask (updateTask ts u) (task_id u) = Some u" by (rule findTask_updateTask)
next
  show "length (updateTask ts u) = length ts" by (simp add: updateTask_def)
next
  fix n assume "n < length ts" "task_id (ts ! n) \<noteq> task_id u"
  then show "updateTask ts u ! n = ts ! n" by (simp add: updateTask_def)
next
  fix n assume "n < length ts" "task_id (ts ! n) = task_id u"
  then show "updateTask ts u ! n = u" by (simp add: updateTask_def)
next
  assume "task_id u \<notin> task_id ` set ts"
  then show "updateTask ts u = ts" by (rule updateTask_absent)
qed

theorem updateTask_frame_witness:
  "task_id (taskB\<lparr>status := Some ''Completed''\<rparr>) \<in> task_id ` set [taskA, taskB, taskC]
   \<and> findTask (updateTask [taskA, taskB, taskC] (taskB\<lparr>status := Some ''Completed''\<rparr>))
         (Some ''b2'') = Some (taskB\<lparr>status := Some ''Completed''\<rparr>)
   \<and> updateTask [taskA, taskB, taskC] (taskB\<lparr>status := Some ''Completed''\<rparr>) ! 0 = taskA
   \<and> updateTask [taskA, taskB, taskC] (taskB\<lparr>status := Some ''Completed''\<rparr>) ! 2 = taskC
   \<and> task_id taskB \<notin> task_id ` set [taskA, taskC]
   \<and> updateTask [taskA, taskC] taskB = [taskA, taskC]"
  using updateTask_frame [of "taskB\<lparr>status := Some ''Completed''\<rparr>" "[taskA, taskB, taskC]"]
    updateTask_frame [of taskB "[taskA, taskC]"]
  by (simp add: taskA_def taskB_def taskC_def mkTask_def)

section \<open>Properties of the sort\<close>

lemma orEmpty_simps: "orEmpty None = []" "orEmpty (Some s) = s"
  by (simp_all add: orEmpty_def)

lemma mset_insert_sorted: "mset (insert_sorted cmp x xs) = add_mset x (mset xs)"
  by (induction xs) simp_all

lemma mset_array_sort: "mset (array_sort cmp xs) = mset xs"
  unfolding array_sort_def by (induction xs) (simp_all add: mset_insert_sorted)

lemma set_insert_sorted: "set (insert_sorted cmp x xs) = insert x (set xs)"
  by (induction xs) auto

lemma set_array_sort: "set (array_sort cmp xs) = set xs"
  unfolding array_sort_def by (induction xs) (simp_all add: set_insert_sorted)

lemma array_sort_Cons: "array_sort cmp (x # xs) = insert_sorted cmp x (array_sort cmp xs)"
  by (simp add: array_sort_def)

lemma array_sort_Nil: "array_sort cmp [] = []"
  by (simp add: array_sort_def)

lemma filter_key_insert_sorted:
  assumes "\<And>y. 0 < cmp x y \<Longrightarrow> f y \<noteq> f x"
  shows "filter (\<lambda>y. f y = c) (insert_sorted cmp x xs)
       = (if f x = c then x # filter (\<lambda>y. f y = c) xs else filter (\<lambda>y. f y = c) xs)"
proof (induction xs)
  case Nil
  show ?case by simp
next
  case (Cons y ys)
  show ?case
  proof (cases "cmp x y \<le> 0")
    case True
    then show ?thesis by simp
  next
    case False
    then have "f y \<noteq> f x" using assms by simp
    with False Cons show ?thesis by auto
  qed
qed

lemma filter_key_array_sort:
  assumes "\<And>x y. 0 < cmp x y \<Longrightarrow> f y \<noteq> f x"
  shows "filter (\<lambda>y. f y = c) (array_sort cmp xs) = filter (\<lambda>y. f y = c) xs"
proof (induction xs)
  case Nil
  show ?case by (simp add: array_sort_Nil)
next
  case (Cons x xs)
  have "filter (\<lambda>y. f y = c) (insert_sorted cmp x (array_sort cmp xs))
      = (if f x = c then x # filter (\<lambda>y. f y = c) (array_sort cmp xs)
         else filter (\<lambda>y. f y = c) (array_sort cmp xs))"
    by (rule filter_key_insert_sorted) (rule assms)
  with Cons show ?case by (simp add: array_sort_Cons)
qed

lemma sorted_insert_sorted:
  assumes total: "\<And>x y. 0 < cmp x y \<Longrightarrow> cmp y x \<le> 0"
    and trans: "\<And>x y z. cmp x y \<le> 0 \<Longrightarrow> cmp y z \<le> 0 \<Longrightarrow> cmp x z \<le> 0"
    and "sorted_wrt (\<lambda>a b. cmp a b \<le> 0) xs"
  shows "sorted_wrt (\<lambda>a b. cmp a b \<le> 0) (insert_sorted cmp x xs)"
  using assms(3)
proof (induction xs)
  case Nil
  show ?case by simp
next
  case (Cons y ys)
  show ?case
  proof (cases "cmp x y \<le> 0")
    case True
    have "\<forall>z\<in>set ys. cmp x z \<le> 0"
      using Cons.prems True trans by auto
    with True Cons.prems show ?thesis by simp
  next
    case False
    then have "cmp y x \<le> 0" using total by simp
    with False Cons show ?thesis by (auto simp: set_insert_sorted)
  qed
qed

lemma sorted_array_sort:
  assumes total: "\<And>x y. 0 < cmp x y \<Longrightarrow> cmp y x \<le> 0"
    and trans: "\<And>x y z. cmp x y \<le> 0 \<Longrightarrow> cmp y z \<le> 0 \<Longrightarrow> cmp x z \<le> 0"
  shows "sorted_wrt (\<lambda>a b. cmp a b \<le> 0) (array_sort cmp xs)"
proof (induction xs)
  case Nil
  show ?case by (simp add: array_sort_Nil)
next
  case (Cons x xs)
  show ?case unfolding array_sort_Cons
    by (rule sorted_insert_sorted [OF total trans Cons]) 
qed

lemma insert_sorted_front:
  "\<forall>z\<in>set zs. cmp x z \<le> 0 \<Longrightarrow> insert_sorted cmp x zs = x # zs"
  by (cases zs) simp_all

lemma filter_insert_sorted_drop:
  "\<not> P x \<Longrightarrow> filter P (insert_sorted cmp x xs) = filter P xs"
  by (induction xs) simp_all

lemma filter_insert_sorted_keep:
  assumes trans: "\<And>x y z. cmp x y \<le> 0 \<Longrightarrow> cmp y z \<le> 0 \<Longrightarrow> cmp x z \<le> 0"
    and "sorted_wrt (\<lambda>a b. cmp a b \<le> 0) xs" and "P x"
  shows "filter P (insert_sorted cmp x xs) = insert_sorted cmp x (filter P xs)"
  using assms(2)
proof (induction xs)
  case Nil
  with \<open>P x\<close> show ?case by simp
next
  case (Cons y ys)
  show ?case
  proof (cases "cmp x y \<le> 0")
    case True
    have "\<forall>z\<in>set (y # ys). cmp x z \<le> 0"
      using Cons.prems True trans by auto
    then have "\<forall>z\<in>set (filter P (y # ys)). cmp x z \<le> 0" by simp
    then have "insert_sorted cmp x (filter P (y # ys)) = x # filter P (y # ys)"
      by (rule insert_sorted_front)
    with True \<open>P x\<close> show ?thesis by simp
  next
    case False
    with Cons show ?thesis by simp
  qed
qed

lemma filter_array_sort:
  assumes total: "\<And>x y. 0 < cmp x y \<Longrightarrow> cmp y x \<le> 0"
    and trans: "\<And>x y z. cmp x y \<le> 0 \<Longrightarrow> cmp y z \<le> 0 \<Longrightarrow> cmp x z \<le> 0"
  shows "filter P (array_sort cmp xs) = array_sort cmp (filter P xs)"
proof (induction xs)
  case Nil
  show ?case by (simp add: array_sort_Nil)
next
  case (Cons x xs)
  have s: "sorted_wrt (\<lambda>a b. cmp a b \<le> 0) (array_sort cmp xs)"
    by (rule sorted_array_sort [OF total trans])
  show ?case
  proof (cases "P x")
    case True
    with Cons filter_insert_sorted_keep [where cmp = cmp and P = P and x = x, OF trans s True] show ?thesis
      by (simp add: array_sort_Cons)
  next
    case False
    with Cons show ?thesis
      by (simp add: array_sort_Cons filter_insert_sorted_drop)
  qed
qed


lemma compareTasks_le:
  "compareTasks k d a b \<le> 0 \<longleftrightarrow> inOrder d (sortValue k a) (sortValue k b)"
  by (auto simp: compareTasks_def inOrder_def sortValue_def Let_def)

lemma compareTasks_range:
  "compareTasks k d a b = - 1 \<or> compareTasks k d a b = 0 \<or> compareTasks k d a b = 1"
  by (simp add: compareTasks_def Let_def)

lemma compareTasks_pos:
  "0 < compareTasks k d a b \<Longrightarrow> sortValue k b \<noteq> sortValue k a"
  by (auto simp: compareTasks_def sortValue_def Let_def split: if_splits)

lemma compareTasks_total:
  "0 < compareTasks k d a b \<Longrightarrow> compareTasks k d b a \<le> 0"
  by (auto simp: compareTasks_def Let_def split: if_splits)

lemma compareTasks_trans:
  "compareTasks k d a b \<le> 0 \<Longrightarrow> compareTasks k d b c \<le> 0 \<Longrightarrow> compareTasks k d a c \<le> 0"
  unfolding compareTasks_le by (auto simp: inOrder_def split: if_splits)

section \<open>Properties of the search\<close>

lemma matchesSearch_error: "matchesSearch s t = Inl e \<Longrightarrow> e = TypeError"
  by (auto simp: matchesSearch_def orElse_def propertyIncludes_def
      split: option.splits sum.splits bool.splits)

lemma filter_js_eq:
  assumes "\<And>x e'. p x = Inl e' \<Longrightarrow> e' = e"
  shows "filter_js p xs =
     (if \<exists>x\<in>set xs. p x = Inl e then Inl e else Inr (filter (\<lambda>x. p x = Inr True) xs))"
proof (induction xs)
  case Nil
  show ?case by simp
next
  case (Cons x xs)
  show ?case
  proof (cases "p x")
    case (Inl e')
    with assms have "p x = Inl e" by simp
    then show ?thesis by simp
  next
    case (Inr b)
    with Cons show ?thesis by (cases b) auto
  qed
qed

lemma filteredTasks_eq:
  "filteredTasks ts s =
     (if s = [] then Inr ts
      else if \<exists>t\<in>set ts. matchesSearch (toLowerCase s) t = Inl TypeError then Inl TypeError
      else Inr (filter (\<lambda>t. matchesSearch (toLowerCase s) t = Inr True) ts))"
  unfolding filteredTasks_def Let_def
  using filter_js_eq [of "matchesSearch (toLowerCase s)" TypeError ts] matchesSearch_error
  by auto

lemma set_sortedTasks: "set (sortedTasks ts cfg) = set ts"
  by (simp add: sortedTasks_def set_array_sort split: option.splits)

lemma filter_sortedTasks:
  "filter P (sortedTasks ts cfg) = sortedTasks (filter P ts) cfg"
proof (cases "key cfg")
  case None
  then show ?thesis by (simp add: sortedTasks_def)
next
  case (Some k)
  have "filter P (array_sort (compareTasks k (direction cfg)) ts)
      = array_sort (compareTasks k (direction cfg)) (filter P ts)"
    by (rule filter_array_sort) (erule compareTasks_total, erule compareTasks_trans, assumption)
  with Some show ?thesis by (simp add: sortedTasks_def)
qed

lemma filteredTasks_sortedTasks:
  "filteredTasks (sortedTasks ts cfg) s =
     (case filteredTasks ts s of Inl e \<Rightarrow> Inl e | Inr fs \<Rightarrow> Inr (sortedTasks fs cfg))"
  by (simp add: filteredTasks_eq set_sortedTasks filter_sortedTasks)

text \<open>
  The result of the sort does not depend on the algorithm: a list in the order of the
  comparator that keeps, for every sort value, the tasks with that value in their input
  order is the list \<open>sortedTasks\<close> returns.
\<close>

lemma stable_sorted_unique:
  assumes anti: "\<And>a b. cmp a b \<le> 0 \<Longrightarrow> cmp b a \<le> 0 \<Longrightarrow> f a = f b"
    and "sorted_wrt (\<lambda>a b. cmp a b \<le> 0) ys"
    and "sorted_wrt (\<lambda>a b. cmp a b \<le> 0) zs"
    and "\<And>c. filter (\<lambda>t. f t = c) ys = filter (\<lambda>t. f t = c) zs"
  shows "ys = zs"
  using assms(2-4)
proof (induction ys arbitrary: zs)
  case Nil
  show ?case
  proof (cases zs)
    case Nil
    then show ?thesis by simp
  next
    case (Cons z zs')
    with Nil.prems(3) [of "f z"] show ?thesis by simp
  qed
next
  case (Cons y ys)
  from Cons.prems(3) [of "f y"] obtain z zs' where zs: "zs = z # zs'"
    by (cases zs) auto
  have fz: "f z = f y"
  proof (cases "z = y")
    case True
    then show ?thesis by simp
  next
    case False
    have ez: "filter (\<lambda>t. f t = f z) (y # ys) = filter (\<lambda>t. f t = f z) zs"
      by (rule Cons.prems(3))
    have "z \<in> set (filter (\<lambda>t. f t = f z) zs)" using zs by simp
    then have "z \<in> set (filter (\<lambda>t. f t = f z) (y # ys))" unfolding ez .
    with False have "z \<in> set ys" by (auto split: if_splits)
    with Cons.prems(1) have 1: "cmp y z \<le> 0" by simp
    have ey: "filter (\<lambda>t. f t = f y) (y # ys) = filter (\<lambda>t. f t = f y) zs"
      by (rule Cons.prems(3))
    have "y \<in> set (filter (\<lambda>t. f t = f y) (y # ys))" by simp
    then have "y \<in> set (filter (\<lambda>t. f t = f y) zs)" unfolding ey .
    with False zs have "y \<in> set zs'" by (auto split: if_splits)
    with Cons.prems(2) zs have 2: "cmp z y \<le> 0" by simp
    from anti [OF 2 1] show ?thesis .
  qed
  from Cons.prems(3) [of "f y"] zs fz have yz: "y = z" by simp
  have "ys = zs'"
  proof (rule Cons.IH)
    show "sorted_wrt (\<lambda>a b. cmp a b \<le> 0) ys" using Cons.prems(1) by simp
    show "sorted_wrt (\<lambda>a b. cmp a b \<le> 0) zs'" using Cons.prems(2) zs by simp
    show "filter (\<lambda>t. f t = c) ys = filter (\<lambda>t. f t = c) zs'" for c
      using Cons.prems(3) [of c] zs yz by (simp split: if_splits)
  qed
  with zs yz show ?case by simp
qed

lemma sortedTasks_unique:
  assumes "sorted_wrt (\<lambda>a b. inOrder d (sortValue k a) (sortValue k b)) r"
    and "\<And>v. filter (\<lambda>t. sortValue k t = v) r = filter (\<lambda>t. sortValue k t = v) ts"
  shows "r = sortedTasks ts \<lparr>key = Some k, direction = d\<rparr>"
proof (rule stable_sorted_unique [where cmp = "compareTasks k d" and f = "sortValue k"])
  show "sortValue k a = sortValue k b"
    if "compareTasks k d a b \<le> 0" "compareTasks k d b a \<le> 0" for a b
    using that unfolding compareTasks_le by (auto simp: inOrder_def split: if_splits)
  show "sorted_wrt (\<lambda>a b. compareTasks k d a b \<le> 0) r"
    using assms(1) by (simp add: compareTasks_le)
  have "sorted_wrt (\<lambda>a b. compareTasks k d a b \<le> 0) (array_sort (compareTasks k d) ts)"
    by (rule sorted_array_sort) (erule compareTasks_total, erule compareTasks_trans, assumption)
  then show "sorted_wrt (\<lambda>a b. compareTasks k d a b \<le> 0)
      (sortedTasks ts \<lparr>key = Some k, direction = d\<rparr>)"
    by (simp add: sortedTasks_def)
  show "filter (\<lambda>t. sortValue k t = c) r
      = filter (\<lambda>t. sortValue k t = c) (sortedTasks ts \<lparr>key = Some k, direction = d\<rparr>)" for c
    unfolding sortedTasks_def
    by (simp add: assms(2) filter_key_array_sort [where f = "sortValue k", OF compareTasks_pos])
qed

text \<open>
  C4. The sort step is stable in both directions: for every value of the sort key, the
  tasks with that value appear in the output in the order they have in the input. The
  output is a permutation of the input, in the order the direction asks for.
\<close>

theorem sortedTasks_stable:
  "filter (\<lambda>t. sortValue k t = v) (sortedTasks ts \<lparr>key = Some k, direction = d\<rparr>)
     = filter (\<lambda>t. sortValue k t = v) ts
   \<and> mset (sortedTasks ts \<lparr>key = Some k, direction = d\<rparr>) = mset ts
   \<and> sorted_wrt (\<lambda>a b. inOrder d (sortValue k a) (sortValue k b))
        (sortedTasks ts \<lparr>key = Some k, direction = d\<rparr>)"
proof (intro conjI)
  show "filter (\<lambda>t. sortValue k t = v) (sortedTasks ts \<lparr>key = Some k, direction = d\<rparr>)
     = filter (\<lambda>t. sortValue k t = v) ts"
    unfolding sortedTasks_def
    by (simp add: filter_key_array_sort [where f = "sortValue k", OF compareTasks_pos])
next
  show "mset (sortedTasks ts \<lparr>key = Some k, direction = d\<rparr>) = mset ts"
    by (simp add: sortedTasks_def mset_array_sort)
next
  have "sorted_wrt (\<lambda>a b. compareTasks k d a b \<le> 0) (array_sort (compareTasks k d) ts)"
    by (rule sorted_array_sort) (erule compareTasks_total, erule compareTasks_trans, assumption)
  then show "sorted_wrt (\<lambda>a b. inOrder d (sortValue k a) (sortValue k b))
        (sortedTasks ts \<lparr>key = Some k, direction = d\<rparr>)"
    by (simp add: sortedTasks_def compareTasks_le)
qed

section \<open>Properties of the paging\<close>

lemma totalPages_div: "totalPages fs = (int (length fs) + 4) div 5"
proof -
  define n where "n = int (length fs)"
  define z where "z = (n + 4) div 5"
  have i: "n \<le> 5 * z" "5 * z < n + 5" unfolding z_def by arith+
  have "real_of_int n \<le> real_of_int (5 * z)" "real_of_int (5 * z) < real_of_int (n + 5)"
    using i by (simp_all only: of_int_le_iff of_int_less_iff)
  then have "real_of_int z - 1 < real_of_int n / 5 \<and> real_of_int n / 5 \<le> real_of_int z"
    by simp
  then have "\<lceil>real_of_int n / 5\<rceil> = z" by (simp add: ceiling_eq_iff)
  then show ?thesis by (simp add: totalPages_def tasksPerPage_def n_def z_def)
qed

lemma currentTasks_take_drop:
  "1 \<le> p \<Longrightarrow> currentTasks fs p = take 5 (drop (nat ((p - 1) * 5)) fs)"
  by (auto simp: currentTasks_def slice_def tasksPerPage_def Let_def min_def)

lemma take_drop_nth_range:
  "take k (drop m xs) = map (\<lambda>i. xs ! i) [m ..< min (m + k) (length xs)]"
  by (rule nth_equalityI) auto

text \<open>
  C5. For a page number \<open>p \<ge> 1\<close> the page holds the tasks at the indices from
  \<open>(p - 1) * 5\<close> up to, not including, \<open>p * 5\<close> (as far as the list goes).
  \<open>totalPages\<close> is the ceiling of the count over 5: the one integer \<open>n\<close> with
  \<open>5 * (n - 1) < count \<le> 5 * n\<close>, and 0 exactly for the empty list. With 12 tasks,
  page 1 has 5 of them, page 3 has 2, and there are 3 pages.
\<close>

theorem currentTasks_page_slice:
  "1 \<le> p \<Longrightarrow>
     currentTasks fs p = map (\<lambda>i. fs ! i) [nat ((p - 1) * 5) ..< min (nat (p * 5)) (length fs)]
     \<and> totalPages fs = \<lceil>real (length fs) / 5\<rceil>
     \<and> 5 * (totalPages fs - 1) < int (length fs) \<and> int (length fs) \<le> 5 * totalPages fs
     \<and> (totalPages fs = 0 \<longleftrightarrow> fs = [])
     \<and> (length fs = 12 \<longrightarrow>
           length (currentTasks fs 1) = 5 \<and> length (currentTasks fs 3) = 2 \<and> totalPages fs = 3)"
proof (intro conjI impI)
  assume p: "1 \<le> p"
  have "nat ((p - 1) * 5) + 5 = nat (p * 5)" using p by (simp add: nat_eq_iff algebra_simps)
  then show "currentTasks fs p
      = map (\<lambda>i. fs ! i) [nat ((p - 1) * 5) ..< min (nat (p * 5)) (length fs)]"
    using take_drop_nth_range [of 5 "nat ((p - 1) * 5)" fs] currentTasks_take_drop [OF p, of fs]
    by simp
next
  show "totalPages fs = \<lceil>real (length fs) / 5\<rceil>"
    by (simp add: totalPages_def tasksPerPage_def)
next
  show "5 * (totalPages fs - 1) < int (length fs)" unfolding totalPages_div by arith
next
  show "int (length fs) \<le> 5 * totalPages fs" unfolding totalPages_div by arith
next
  show "totalPages fs = 0 \<longleftrightarrow> fs = []" unfolding totalPages_div
    by (cases fs) simp_all
next
  assume l: "length fs = 12"
  then show "length (currentTasks fs 1) = 5" by (simp add: currentTasks_take_drop)
  from l show "length (currentTasks fs 3) = 2" by (simp add: currentTasks_take_drop)
  from l show "totalPages fs = 3" by (simp add: totalPages_div)
qed

theorem currentTasks_page_slice_witness:
  "(1::int) \<le> 3
   \<and> currentTasks (replicate 4 taskA @ replicate 4 taskB @ replicate 4 taskC) 3 = [taskC, taskC]
   \<and> length (currentTasks (replicate 4 taskA @ replicate 4 taskB @ replicate 4 taskC) 1) = 5
   \<and> totalPages (replicate 4 taskA @ replicate 4 taskB @ replicate 4 taskC) = 3
   \<and> totalPages [] = 0"
  using currentTasks_page_slice [of 3 "replicate 4 taskA @ replicate 4 taskB @ replicate 4 taskC"]
    currentTasks_page_slice [of 1 "[]"]
  by (simp add: currentTasks_take_drop numeral_eq_Suc)

lemma totalPages_nonneg: "0 \<le> totalPages fs"
  unfolding totalPages_div by simp

lemma reachablePage_ge_1: "reachablePage p \<Longrightarrow> 1 \<le> p"
  by (induction rule: reachablePage.induct)
     (auto simp: previousPage_def nextPage_def pageCorrection_def)

text \<open>
  C6. For a page number the screen can hold and the page count of any filtered list, the
  correcting effect leaves page 1 when there are no pages and a page in
  \<open>1..totalPages\<close> otherwise: a page beyond the count is set to the count, a page
  within it is kept. Running the effect again changes nothing.
\<close>

theorem pageCorrection_restores_invariant:
  "reachablePage currentPage \<Longrightarrow>
     (totalPages fs = 0 \<longrightarrow> pageCorrection (totalPages fs) currentPage = 1)
     \<and> (0 < totalPages fs \<longrightarrow>
           1 \<le> pageCorrection (totalPages fs) currentPage
           \<and> pageCorrection (totalPages fs) currentPage \<le> totalPages fs)
     \<and> (totalPages fs < currentPage \<and> 0 < totalPages fs \<longrightarrow>
           pageCorrection (totalPages fs) currentPage = totalPages fs)
     \<and> (currentPage \<le> totalPages fs \<longrightarrow>
           pageCorrection (totalPages fs) currentPage = currentPage)
     \<and> pageCorrection (totalPages fs) (pageCorrection (totalPages fs) currentPage)
         = pageCorrection (totalPages fs) currentPage"
  using reachablePage_ge_1 [of currentPage] totalPages_nonneg [of fs]
  by (auto simp: pageCorrection_def)


theorem pageCorrection_restores_invariant_witness:
  "reachablePage 4
   \<and> pageCorrection (totalPages (replicate 12 taskA)) 4 = 3
   \<and> pageCorrection (totalPages []) 4 = 1
   \<and> pageCorrection (totalPages (replicate 12 taskA)) 2 = 2"
proof -
  have r4: "reachablePage 4"
    by (rule reachablePage.numbered [of "replicate 16 taskA"]) (simp_all add: totalPages_div)
  have r2: "reachablePage 2"
    by (rule reachablePage.numbered [of "replicate 16 taskA"]) (simp_all add: totalPages_div)
  show ?thesis
    using r4 pageCorrection_restores_invariant [OF r4, of "replicate 12 taskA"]
      pageCorrection_restores_invariant [OF r4, of "[]"]
      pageCorrection_restores_invariant [OF r2, of "replicate 12 taskA"]
    by (simp add: totalPages_div)
qed

section \<open>Properties of the strings and of the search\<close>

lemma startsWith_iff: "startsWith s sub \<longleftrightarrow> (\<exists>post. s = sub @ post)"
  by (induction s sub rule: startsWith.induct) auto

lemma includes_str_iff: "includes_str s sub \<longleftrightarrow> (\<exists>pre post. s = pre @ sub @ post)"
proof (induction s)
  case Nil
  show ?case by simp
next
  case (Cons x xs)
  show ?case
  proof
    assume "includes_str (x # xs) sub"
    then consider "startsWith (x # xs) sub" | "includes_str xs sub" by auto
    then show "\<exists>pre post. x # xs = pre @ sub @ post"
    proof cases
      case 1
      then obtain post where "x # xs = [] @ sub @ post" by (auto simp: startsWith_iff)
      then show ?thesis by blast
    next
      case 2
      with Cons obtain pre post where "xs = pre @ sub @ post" by blast
      then have "x # xs = (x # pre) @ sub @ post" by simp
      then show ?thesis by blast
    qed
  next
    assume "\<exists>pre post. x # xs = pre @ sub @ post"
    then obtain pre post where e: "x # xs = pre @ sub @ post" by blast
    show "includes_str (x # xs) sub"
    proof (cases pre)
      case Nil
      with e have "startsWith (x # xs) sub" by (auto simp: startsWith_iff)
      then show ?thesis by simp
    next
      case (Cons a pre')
      with e have "xs = pre' @ sub @ post" by simp
      with Cons.IH have "includes_str xs sub" by blast
      then show ?thesis by simp
    qed
  qed
qed

lemma orElse_simps:
  "orElse (Inl e) b = Inl e"
  "orElse (Inr True) b = Inr True"
  "orElse (Inr False) b = b"
  "orElse (Inr x) (Inr y) = Inr (x \<or> y)"
  by (simp_all add: orElse_def split: bool.splits)

lemma propertyIncludes_simps:
  "propertyIncludes None l = Inl TypeError"
  "propertyIncludes (Some x) l = Inr (includes_str (toLowerCase x) l)"
  by (simp_all add: propertyIncludes_def)

lemma matchesSearch_searchable:
  "searchable t \<Longrightarrow>
     matchesSearch l t =
       Inr (includes_str (toLowerCase (the (title t))) l
            \<or> includes_str (toLowerCase (the (description t))) l
            \<or> includes_str (toLowerCase (the (status t))) l
            \<or> includes_str (toLowerCase (the (priority t))) l)"
  by (auto simp: searchable_def matchesSearch_def orElse_simps propertyIncludes_simps)

text \<open>
  On tasks that have all four searched properties the filter does what is asked of it:
  the empty search term returns the list as it is, and a non-empty term keeps exactly the
  tasks where the lower-cased term occurs in the lower-cased title, description, status
  or priority.
\<close>

theorem filteredTasks_search:
  "filteredTasks ts [] = Inr ts
   \<and> ((\<forall>t\<in>set ts. searchable t) \<and> s \<noteq> [] \<longrightarrow>
        filteredTasks ts s =
          Inr (filter (\<lambda>t.
                 (\<exists>pre post. toLowerCase (the (title t)) = pre @ toLowerCase s @ post)
               \<or> (\<exists>pre post. toLowerCase (the (description t)) = pre @ toLowerCase s @ post)
               \<or> (\<exists>pre post. toLowerCase (the (status t)) = pre @ toLowerCase s @ post)
               \<or> (\<exists>pre post. toLowerCase (the (priority t)) = pre @ toLowerCase s @ post)) ts))"
proof (intro conjI impI)
  show "filteredTasks ts [] = Inr ts" by (simp add: filteredTasks_def)
next
  assume a: "(\<forall>t\<in>set ts. searchable t) \<and> s \<noteq> []"
  then have "\<not> (\<exists>t\<in>set ts. matchesSearch (toLowerCase s) t = Inl TypeError)"
    by (auto simp: matchesSearch_searchable)
  with a have "filteredTasks ts s
      = Inr (filter (\<lambda>t. matchesSearch (toLowerCase s) t = Inr True) ts)"
    by (simp add: filteredTasks_eq)
  also have "filter (\<lambda>t. matchesSearch (toLowerCase s) t = Inr True) ts
      = filter (\<lambda>t.
                 (\<exists>pre post. toLowerCase (the (title t)) = pre @ toLowerCase s @ post)
               \<or> (\<exists>pre post. toLowerCase (the (description t)) = pre @ toLowerCase s @ post)
               \<or> (\<exists>pre post. toLowerCase (the (status t)) = pre @ toLowerCase s @ post)
               \<or> (\<exists>pre post. toLowerCase (the (priority t)) = pre @ toLowerCase s @ post)) ts"
    using a by (intro filter_cong refl) (simp add: matchesSearch_searchable includes_str_iff)
  finally show "filteredTasks ts s =
          Inr (filter (\<lambda>t.
                 (\<exists>pre post. toLowerCase (the (title t)) = pre @ toLowerCase s @ post)
               \<or> (\<exists>pre post. toLowerCase (the (description t)) = pre @ toLowerCase s @ post)
               \<or> (\<exists>pre post. toLowerCase (the (status t)) = pre @ toLowerCase s @ post)
               \<or> (\<exists>pre post. toLowerCase (the (priority t)) = pre @ toLowerCase s @ post)) ts)" .
qed


theorem filteredTasks_search_witness:
  "searchable taskA \<and> searchable taskB \<and> searchable taskC \<and> ''high'' \<noteq> []
   \<and> priority taskA = Some ''High''
   \<and> filteredTasks [taskA, taskB, taskC] ''high'' = Inr [taskA]
   \<and> filteredTasks [taskA, taskB, taskC] ''HIGH'' = Inr [taskA]
   \<and> filter (\<lambda>t.
         (\<exists>pre post. toLowerCase (the (title t)) = pre @ toLowerCase ''high'' @ post)
       \<or> (\<exists>pre post. toLowerCase (the (description t)) = pre @ toLowerCase ''high'' @ post)
       \<or> (\<exists>pre post. toLowerCase (the (status t)) = pre @ toLowerCase ''high'' @ post)
       \<or> (\<exists>pre post. toLowerCase (the (priority t)) = pre @ toLowerCase ''high'' @ post))
        [taskA, taskB, taskC] = [taskA]"
proof -
  have s: "searchable taskA" "searchable taskB" "searchable taskC"
    by (simp_all add: searchable_def taskA_def taskB_def taskC_def mkTask_def)
  have c: "filteredTasks [taskA, taskB, taskC] ''high'' = Inr [taskA]" by code_simp
  have c': "filteredTasks [taskA, taskB, taskC] ''HIGH'' = Inr [taskA]" by code_simp
  have p: "priority taskA = Some ''High''" by (simp add: taskA_def mkTask_def)
  show ?thesis
    using filteredTasks_search [of "[taskA, taskB, taskC]" "''high''"] s c c' p
    by simp
qed

text \<open>
  C7. The filter does not keep the matching tasks of every task list: the priority
  \<open>High\<close> of a task contains the search term \<open>high\<close> once both are lower-cased, and
  the filter keeps that task when its description is present, but throws a
  \<open>TypeError\<close>, returning no list, when the description is absent.
\<close>

theorem filteredTasks_throws_where_task_matches:
  "priority (taskA\<lparr>description := None\<rparr>) = Some ''High''
   \<and> includes_str (toLowerCase ''High'') (toLowerCase ''high'')
   \<and> filteredTasks [taskA] ''high'' = Inr [taskA]
   \<and> filteredTasks [taskA\<lparr>description := None\<rparr>] ''high'' = Inl TypeError"
  by code_simp

lemma matchesSearch_no_title: "title t = None \<Longrightarrow> matchesSearch l t = Inl TypeError"
  by (simp add: matchesSearch_def orElse_simps propertyIncludes_simps)

lemma matchesSearch_absent:
  "\<not> searchable t \<Longrightarrow> noPresentMatch l t \<Longrightarrow> matchesSearch l t = Inl TypeError"
  by (auto simp: searchable_def noPresentMatch_def matchesSearch_def orElse_simps
      propertyIncludes_simps split: option.splits)

lemma sortValue_case: "sortValue k t = (case property k t of None \<Rightarrow> [] | Some s \<Rightarrow> s)"
  by (simp add: sortValue_def orEmpty_def split: option.splits)

lemma compareTasks_case:
  "compareTasks k d a b =
     (if sortValue k a < sortValue k b then (if d = Asc then - 1 else 1)
      else if sortValue k b < sortValue k a then (if d = Asc then 1 else - 1)
      else 0)"
  by (simp add: compareTasks_def sortValue_def Let_def)

text \<open>
  C10. The comparator of the sort compares the texts of the sort key with an absent
  property read as the empty string: two absent values compare equal, an absent value
  sorts before every non-empty one ascending and after it descending, and the sort
  returns, for any list, a permutation in the order of these texts. The filter does not
  guard: for a non-empty term, a list holding a task with an absent searched property
  throws a \<open>TypeError\<close> when the title is the absent one, or when no present property
  of that task contains the term.
\<close>

theorem filteredTasks_throws_on_absent_property:
  "(let aValue = (case property k a of None \<Rightarrow> [] | Some x \<Rightarrow> x);
        bValue = (case property k b of None \<Rightarrow> [] | Some x \<Rightarrow> x)
    in compareTasks k d a b =
         (if aValue < bValue then (if d = Asc then - 1 else 1)
          else if bValue < aValue then (if d = Asc then 1 else - 1)
          else 0))
   \<and> (property k a = None \<and> property k b = None \<longrightarrow> compareTasks k d a b = 0)
   \<and> (property k a = None \<and> property k b = Some s \<and> s \<noteq> [] \<longrightarrow>
        compareTasks k Asc a b = - 1 \<and> compareTasks k Asc b a = 1
        \<and> compareTasks k Desc a b = 1 \<and> compareTasks k Desc b a = - 1)
   \<and> mset (sortedTasks ts cfg) = mset ts
   \<and> sorted_wrt
        (\<lambda>x y. if d = Asc
               then (case property k x of None \<Rightarrow> [] | Some v \<Rightarrow> v)
                      \<le> (case property k y of None \<Rightarrow> [] | Some v \<Rightarrow> v)
               else (case property k y of None \<Rightarrow> [] | Some v \<Rightarrow> v)
                      \<le> (case property k x of None \<Rightarrow> [] | Some v \<Rightarrow> v))
        (sortedTasks ts \<lparr>key = Some k, direction = d\<rparr>)
   \<and> (term \<noteq> [] \<and> t \<in> set ts \<and> \<not> searchable t
        \<and> (title t = None \<or> noPresentMatch (toLowerCase term) t) \<longrightarrow>
        filteredTasks (sortedTasks ts cfg) term = Inl TypeError)"
proof (intro conjI impI)
  show "let aValue = (case property k a of None \<Rightarrow> [] | Some x \<Rightarrow> x);
        bValue = (case property k b of None \<Rightarrow> [] | Some x \<Rightarrow> x)
    in compareTasks k d a b =
         (if aValue < bValue then (if d = Asc then - 1 else 1)
          else if bValue < aValue then (if d = Asc then 1 else - 1)
          else 0)"
    unfolding Let_def sortValue_case [symmetric] by (rule compareTasks_case)
next
  assume "property k a = None \<and> property k b = None"
  then show "compareTasks k d a b = 0"
    by (simp add: compareTasks_case sortValue_case)
next
  assume h: "property k a = None \<and> property k b = Some s \<and> s \<noteq> []"
  then have v: "sortValue k a = []" "sortValue k b = s" "s \<noteq> []"
    by (simp_all add: sortValue_case)
  then have "sortValue k a < sortValue k b" by (cases s) simp_all
  then show "compareTasks k Asc a b = - 1" "compareTasks k Asc b a = 1"
    "compareTasks k Desc a b = 1" "compareTasks k Desc b a = - 1"
    by (simp_all add: compareTasks_case)
next
  show "mset (sortedTasks ts cfg) = mset ts"
    by (simp add: sortedTasks_def mset_array_sort split: option.splits)
next
  have "sorted_wrt (\<lambda>x y. compareTasks k d x y \<le> 0) (array_sort (compareTasks k d) ts)"
    by (rule sorted_array_sort) (erule compareTasks_total, erule compareTasks_trans, assumption)
  then show "sorted_wrt
        (\<lambda>x y. if d = Asc
               then (case property k x of None \<Rightarrow> [] | Some v \<Rightarrow> v)
                      \<le> (case property k y of None \<Rightarrow> [] | Some v \<Rightarrow> v)
               else (case property k y of None \<Rightarrow> [] | Some v \<Rightarrow> v)
                      \<le> (case property k x of None \<Rightarrow> [] | Some v \<Rightarrow> v))
        (sortedTasks ts \<lparr>key = Some k, direction = d\<rparr>)"
    by (simp add: sortedTasks_def compareTasks_le inOrder_def sortValue_case)
next
  assume a: "term \<noteq> [] \<and> t \<in> set ts \<and> \<not> searchable t
        \<and> (title t = None \<or> noPresentMatch (toLowerCase term) t)"
  then have "matchesSearch (toLowerCase term) t = Inl TypeError"
    using matchesSearch_no_title matchesSearch_absent by blast
  with a have "\<exists>t\<in>set (sortedTasks ts cfg). matchesSearch (toLowerCase term) t = Inl TypeError"
    by (auto simp: set_sortedTasks)
  with a show "filteredTasks (sortedTasks ts cfg) term = Inl TypeError"
    by (simp add: filteredTasks_eq)
qed

theorem filteredTasks_throws_on_absent_property_witness:
  "property KeyPriority (taskB\<lparr>priority := None\<rparr>) = None
   \<and> property KeyPriority taskA = Some ''High'' \<and> ''High'' \<noteq> []
   \<and> compareTasks KeyPriority Asc (taskB\<lparr>priority := None\<rparr>) taskA = - 1
   \<and> compareTasks KeyPriority Desc (taskB\<lparr>priority := None\<rparr>) taskA = 1
   \<and> compareTasks KeyPriority Desc (taskB\<lparr>priority := None\<rparr>) (taskB\<lparr>priority := None\<rparr>) = 0
   \<and> sortedTasks [taskA, taskB\<lparr>priority := None\<rparr>] \<lparr>key = Some KeyPriority, direction = Asc\<rparr>
       = [taskB\<lparr>priority := None\<rparr>, taskA]
   \<and> ''x'' \<noteq> [] \<and> taskB\<lparr>priority := None\<rparr> \<in> set [taskA, taskB\<lparr>priority := None\<rparr>]
   \<and> \<not> searchable (taskB\<lparr>priority := None\<rparr>)
   \<and> noPresentMatch (toLowerCase ''x'') (taskB\<lparr>priority := None\<rparr>)
   \<and> filteredTasks
        (sortedTasks [taskA, taskB\<lparr>priority := None\<rparr>] \<lparr>key = Some KeyPriority, direction = Asc\<rparr>)
        ''x'' = Inl TypeError"
proof -
  have h: "property KeyPriority (taskB\<lparr>priority := None\<rparr>) = None"
    "property KeyPriority taskA = Some ''High''"
    "\<not> searchable (taskB\<lparr>priority := None\<rparr>)"
    "noPresentMatch (toLowerCase ''x'') (taskB\<lparr>priority := None\<rparr>)"
    by code_simp+
  have c: "sortedTasks [taskA, taskB\<lparr>priority := None\<rparr>] \<lparr>key = Some KeyPriority, direction = Asc\<rparr>
       = [taskB\<lparr>priority := None\<rparr>, taskA]" by code_simp
  show ?thesis
    using filteredTasks_throws_on_absent_property [of KeyPriority "taskB\<lparr>priority := None\<rparr>"
        taskA Asc "''High''" "[taskA, taskB\<lparr>priority := None\<rparr>]"
        "\<lparr>key = Some KeyPriority, direction = Asc\<rparr>" "''x''" "taskB\<lparr>priority := None\<rparr>"]
      filteredTasks_throws_on_absent_property [of KeyPriority "taskB\<lparr>priority := None\<rparr>"
        "taskB\<lparr>priority := None\<rparr>" Desc]
      h c
    by simp
qed

section \<open>Properties of the validation\<close>

lemma trim_Nil_iff: "trim s = [] \<longleftrightarrow> (\<forall>c\<in>set s. isWhiteSpace c)"
proof
  assume "trim s = []"
  then have a: "\<forall>c\<in>set (dropWhile isWhiteSpace s). isWhiteSpace c"
    by (simp add: trim_def dropWhile_eq_Nil_conv)
  have "dropWhile isWhiteSpace s = []"
  proof (rule ccontr)
    assume n: "dropWhile isWhiteSpace s \<noteq> []"
    then have "\<not> isWhiteSpace (hd (dropWhile isWhiteSpace s))" by (rule hd_dropWhile)
    moreover from n have "hd (dropWhile isWhiteSpace s) \<in> set (dropWhile isWhiteSpace s)"
      by (rule hd_in_set)
    ultimately show False using a by blast
  qed
  then show "\<forall>c\<in>set s. isWhiteSpace c" by (simp add: dropWhile_eq_Nil_conv)
next
  assume "\<forall>c\<in>set s. isWhiteSpace c"
  then have d: "dropWhile isWhiteSpace s = []" by (simp add: dropWhile_eq_Nil_conv)
  show "trim s = []" unfolding trim_def d by simp
qed

lemma length_trim_le: "length (trim s) \<le> length s"
proof -
  have "length (trim s) \<le> length (dropWhile isWhiteSpace s)"
    unfolding trim_def length_rev
    using length_dropWhile_le [of isWhiteSpace "rev (dropWhile isWhiteSpace s)"] by simp
  also have "\<dots> \<le> length s" by (rule length_dropWhile_le)
  finally show ?thesis .
qed

lemma trim_Nil: "trim [] = []"
  by (simp add: trim_def)

lemma validateTaskForm_title:
  "validateTaskForm v ''title'' =
     (case title v of
        None \<Rightarrow> Some ''Title is required.''
      | Some s \<Rightarrow>
          if trim s = [] then Some ''Title is required.''
          else if length s < 3 then Some ''Title must be at least 3 characters.''
          else None)"
  unfolding validateTaskForm_def Let_def
  by (cases "title v") (simp_all add: trim_Nil)

text \<open>
  What the code computes for the title. The title error is "Title is required." exactly when the title is
  absent, empty or white space only; otherwise it is "Title must be at least 3
  characters." exactly when the title as typed, not trimmed, has fewer than 3 characters;
  otherwise there is none. So a title that is not blank and has 1 or 2 characters gets the
  second message, and a title of trimmed length 3 or more gets no message.
\<close>

theorem validateTaskForm_title_errors:
  "(validateTaskForm v ''title'' = Some ''Title is required.''
      \<longleftrightarrow> (case title v of None \<Rightarrow> True | Some s \<Rightarrow> trim s = []))
   \<and> (validateTaskForm v ''title'' = Some ''Title must be at least 3 characters.''
      \<longleftrightarrow> (case title v of None \<Rightarrow> False | Some s \<Rightarrow> trim s \<noteq> [] \<and> length s < 3))
   \<and> (validateTaskForm v ''title'' = None
      \<longleftrightarrow> (case title v of None \<Rightarrow> False | Some s \<Rightarrow> trim s \<noteq> [] \<and> 3 \<le> length s))
   \<and> (title v = Some s \<and> trim s \<noteq> [] \<and> (length s = 1 \<or> length s = 2) \<longrightarrow>
        validateTaskForm v ''title'' = Some ''Title must be at least 3 characters.'')
   \<and> (title v = Some s \<and> 3 \<le> length (trim s) \<longrightarrow> validateTaskForm v ''title'' = None)
   \<and> (title v = Some s \<and> 1 \<le> length (trim s) \<longrightarrow>
        validateTaskForm v ''title'' \<noteq> Some ''Title is required.'')
   \<and> (trim s = [] \<longleftrightarrow> (\<forall>c\<in>set s. isWhiteSpace c))"
proof (intro conjI impI)
  assume "title v = Some s \<and> 1 \<le> length (trim s)"
  then show "validateTaskForm v ''title'' \<noteq> Some ''Title is required.''"
    by (auto simp: validateTaskForm_title)
next
  show "validateTaskForm v ''title'' = Some ''Title is required.''
      \<longleftrightarrow> (case title v of None \<Rightarrow> True | Some s \<Rightarrow> trim s = [])"
    by (simp add: validateTaskForm_title split: option.splits)
  show "validateTaskForm v ''title'' = Some ''Title must be at least 3 characters.''
      \<longleftrightarrow> (case title v of None \<Rightarrow> False | Some s \<Rightarrow> trim s \<noteq> [] \<and> length s < 3)"
    by (simp add: validateTaskForm_title split: option.splits)
  show "validateTaskForm v ''title'' = None
      \<longleftrightarrow> (case title v of None \<Rightarrow> False | Some s \<Rightarrow> trim s \<noteq> [] \<and> 3 \<le> length s)"
    by (auto simp: validateTaskForm_title split: option.splits)
  show "trim s = [] \<longleftrightarrow> (\<forall>c\<in>set s. isWhiteSpace c)" by (rule trim_Nil_iff)
next
  assume "title v = Some s \<and> trim s \<noteq> [] \<and> (length s = 1 \<or> length s = 2)"
  then show "validateTaskForm v ''title'' = Some ''Title must be at least 3 characters.''"
    by (auto simp: validateTaskForm_title)
next
  assume a: "title v = Some s \<and> 3 \<le> length (trim s)"
  then have "trim s \<noteq> []" by auto
  moreover from a have "3 \<le> length s" using length_trim_le [of s] by simp
  ultimately show "validateTaskForm v ''title'' = None"
    using a by (simp add: validateTaskForm_title)
qed

theorem validateTaskForm_title_errors_witness:
  "title (taskA\<lparr>title := Some ''ab''\<rparr>) = Some ''ab'' \<and> trim ''ab'' \<noteq> [] \<and> length ''ab'' = 2
   \<and> validateTaskForm (taskA\<lparr>title := Some ''ab''\<rparr>) ''title''
       = Some ''Title must be at least 3 characters.''
   \<and> title taskA = Some ''Write report'' \<and> 3 \<le> length (trim ''Write report'')
   \<and> validateTaskForm taskA ''title'' = None
   \<and> trim ''  '' = [] \<and> isWhiteSpace CHR '' ''"
proof -
  have h: "title (taskA\<lparr>title := Some ''ab''\<rparr>) = Some ''ab''" "trim ''ab'' \<noteq> []"
    "title taskA = Some ''Write report''" "3 \<le> length (trim ''Write report'')"
    "trim ''  '' = []"
    by code_simp+
  show ?thesis
    using validateTaskForm_title_errors [of "taskA\<lparr>title := Some ''ab''\<rparr>" "''ab''"]
      validateTaskForm_title_errors [of taskA "''Write report''"]
      validateTaskForm_title_errors [of taskA "''  ''"] h
    by simp
qed

text \<open>
  C1. A title of trimmed length 1 does not always get the message "Title must be at least
  3 characters.": line 141 trims the title for the test of emptiness, line 143 measures
  it as typed. The title \<open>a\<close> is refused with that message, and the same title with
  white space around it, \<open>" a "\<close> or \<open>"a  "\<close>, gets no title error at all; with the
  other fields filled in, the form is accepted.
\<close>

theorem validateTaskForm_accepts_padded_short_title:
  "length (trim ''a'') = 1 \<and> length (trim '' a '') = 1 \<and> length (trim ''a  '') = 1
   \<and> validateTaskForm (taskA\<lparr>title := Some ''a''\<rparr>) ''title''
       = Some ''Title must be at least 3 characters.''
   \<and> validateTaskForm (taskA\<lparr>title := Some '' a ''\<rparr>) ''title'' = None
   \<and> validateTaskForm (taskA\<lparr>title := Some ''a  ''\<rparr>) ''title'' = None
   \<and> validateTaskForm (taskA\<lparr>title := Some '' a ''\<rparr>) ''description'' = None
   \<and> validateTaskForm (taskA\<lparr>title := Some '' a ''\<rparr>) ''dueDate'' = None"
  by code_simp

section \<open>Properties of the initial load\<close>

text \<open>
  C3. The initial load always returns a value, never an exception. It returns the empty
  array when the key is missing, when the stored text is empty, when \<open>JSON.parse\<close>
  throws on it, and when reading the store throws; text that parses is returned as parsed.
\<close>

theorem loadTasks_falls_back:
  "(\<exists>v. loadTasks getItem JSON_parse = Inr v)
   \<and> (getItem localStorageKey = Inr None \<longrightarrow> loadTasks getItem JSON_parse = Inr (JArray []))
   \<and> (getItem localStorageKey = Inr (Some []) \<longrightarrow>
        loadTasks getItem JSON_parse = Inr (JArray []))
   \<and> (getItem localStorageKey = Inr (Some s) \<and> JSON_parse s = Inl e \<longrightarrow>
        loadTasks getItem JSON_parse = Inr (JArray []))
   \<and> (getItem localStorageKey = Inl e \<longrightarrow> loadTasks getItem JSON_parse = Inr (JArray []))
   \<and> (getItem localStorageKey = Inr (Some s) \<and> s \<noteq> [] \<and> JSON_parse s = Inr v \<longrightarrow>
        loadTasks getItem JSON_parse = Inr v)"
proof (intro conjI impI)
  show "\<exists>v. loadTasks getItem JSON_parse = Inr v"
    by (simp add: loadTasks_def split: sum.splits)
next
  assume "getItem localStorageKey = Inr None"
  then show "loadTasks getItem JSON_parse = Inr (JArray [])"
    by (simp add: loadTasks_def)
next
  assume "getItem localStorageKey = Inr (Some [])"
  then show "loadTasks getItem JSON_parse = Inr (JArray [])"
    by (simp add: loadTasks_def)
next
  assume a: "getItem localStorageKey = Inr (Some s) \<and> JSON_parse s = Inl e"
  show "loadTasks getItem JSON_parse = Inr (JArray [])"
  proof (cases "s = []")
    case True
    with a show ?thesis by (simp add: loadTasks_def)
  next
    case False
    with a show ?thesis by (simp add: loadTasks_def)
  qed
next
  assume "getItem localStorageKey = Inl e"
  then show "loadTasks getItem JSON_parse = Inr (JArray [])"
    by (simp add: loadTasks_def)
next
  assume "getItem localStorageKey = Inr (Some s) \<and> s \<noteq> [] \<and> JSON_parse s = Inr v"
  then show "loadTasks getItem JSON_parse = Inr v"
    by (simp add: loadTasks_def)
qed

theorem loadTasks_falls_back_witness:
  "loadTasks (\<lambda>k. Inr None) (\<lambda>s. Inl SyntaxError) = Inr (JArray [])
   \<and> loadTasks (\<lambda>k. Inr (Some [])) (\<lambda>s. Inl SyntaxError) = Inr (JArray [])
   \<and> loadTasks (\<lambda>k. if k = localStorageKey then Inr (Some ''[{'') else Inr None)
        (\<lambda>s. if s = ''[]'' then Inr (JArray []) else Inl SyntaxError) = Inr (JArray [])
   \<and> loadTasks (\<lambda>k. Inl DOMException) (\<lambda>s. Inl SyntaxError) = Inr (JArray [])
   \<and> loadTasks (\<lambda>k. Inr (Some ''[t]'')) (\<lambda>s. Inr (JArray [taskA])) = Inr (JArray [taskA])"
  using loadTasks_falls_back [of "\<lambda>k. Inr None" "\<lambda>s. Inl SyntaxError"]
    loadTasks_falls_back [of "\<lambda>k. Inr (Some [])" "\<lambda>s. Inl SyntaxError"]
    loadTasks_falls_back [of "\<lambda>k. if k = localStorageKey then Inr (Some ''[{'') else Inr None"
      "\<lambda>s. if s = ''[]'' then Inr (JArray []) else Inl SyntaxError" "''[{''" SyntaxError]
    loadTasks_falls_back [of "\<lambda>k. Inl DOMException" "\<lambda>s. Inl SyntaxError" _ DOMException]
    loadTasks_falls_back [of "\<lambda>k. Inr (Some ''[t]'')" "\<lambda>s. Inr (JArray [taskA])" "''[t]''" _
      "JArray [taskA]"]
  by simp

section \<open>The list screen against the pipeline of the specification\<close>

lemma spec_substring_iff: "spec_substring sub s \<longleftrightarrow> (\<exists>pre post. s = pre @ sub @ post)"
proof
  assume "spec_substring sub s"
  then have "\<exists>i\<in>set [0 ..< Suc (length s)]. take (length sub) (drop i s) = sub"
    unfolding spec_substring_def list_ex_iff .
  then obtain i where i: "take (length sub) (drop i s) = sub" by blast
  have "s = take i s @ drop i s" by simp
  also have "drop i s = take (length sub) (drop i s) @ drop (length sub) (drop i s)"
    by (simp only: append_take_drop_id)
  finally have "s = take i s @ sub @ drop (length sub) (drop i s)" using i by simp
  then show "\<exists>pre post. s = pre @ sub @ post" by blast
next
  assume "\<exists>pre post. s = pre @ sub @ post"
  then obtain pre post where s: "s = pre @ sub @ post" by blast
  then have "length pre \<le> length s" "take (length sub) (drop (length pre) s) = sub" by simp_all
  then show "spec_substring sub s"
    unfolding spec_substring_def list_ex_iff by (intro bexI [of _ "length pre"]) auto
qed

lemma includes_str_spec: "includes_str s sub = spec_substring sub s"
  by (simp add: includes_str_iff spec_substring_iff)

lemma matchesSearch_Inr_spec:
  "matchesSearch (toLowerCase s) t = Inr b \<Longrightarrow> b = spec_matches s t"
  by (auto simp: matchesSearch_def orElse_def propertyIncludes_def spec_matches_def
      includes_str_spec split: option.splits sum.splits bool.splits)

lemma filteredTasks_Inr_spec:
  "filteredTasks ts s = Inr fs \<Longrightarrow> fs = spec_filter s ts"
proof (cases "s = []")
  case True
  then show "filteredTasks ts s = Inr fs \<Longrightarrow> fs = spec_filter s ts"
    by (simp add: filteredTasks_def spec_filter_def)
next
  case False
  assume a: "filteredTasks ts s = Inr fs"
  with False have n: "\<not> (\<exists>t\<in>set ts. matchesSearch (toLowerCase s) t = Inl TypeError)"
    and f: "fs = filter (\<lambda>t. matchesSearch (toLowerCase s) t = Inr True) ts"
    by (auto simp: filteredTasks_eq split: if_splits)
  have "matchesSearch (toLowerCase s) t = Inr True \<longleftrightarrow> spec_matches s t" if "t \<in> set ts" for t
  proof (cases "matchesSearch (toLowerCase s) t")
    case (Inl e)
    with matchesSearch_error [OF Inl] n that show ?thesis by blast
  next
    case (Inr b)
    with matchesSearch_Inr_spec [OF Inr] show ?thesis by simp
  qed
  then have "filter (\<lambda>t. matchesSearch (toLowerCase s) t = Inr True) ts
      = filter (spec_matches s) ts"
    by (intro filter_cong refl)
  with f False show "fs = spec_filter s ts" by (simp add: spec_filter_def)
qed

lemma sortValue_spec_text: "sortValue k t = spec_text k t"
  by (cases k) (auto simp: sortValue_def orEmpty_def split: option.splits)

lemma sortedTasks_spec_sort:
  "sortedTasks ts \<lparr>key = Some k, direction = d\<rparr> = spec_sort k d ts"
proof (rule sortedTasks_unique [symmetric])
  show "sorted_wrt (\<lambda>a b. inOrder d (sortValue k a) (sortValue k b)) (spec_sort k d ts)"
  proof (cases d)
    case Asc
    have "sorted (map (spec_text k) (sort_key (spec_text k) ts))" by simp
    then have "sorted_wrt (\<lambda>a b. spec_text k a \<le> spec_text k b) (sort_key (spec_text k) ts)"
      by (simp add: sorted_map)
    with Asc show ?thesis by (simp add: spec_sort_def inOrder_def sortValue_spec_text)
  next
    case Desc
    have "sorted (map (spec_text k) (sort_key (spec_text k) (rev ts)))" by simp
    then have "sorted_wrt (\<lambda>a b. spec_text k a \<le> spec_text k b)
        (sort_key (spec_text k) (rev ts))"
      by (simp add: sorted_map)
    then have "sorted_wrt (\<lambda>a b. spec_text k b \<le> spec_text k a)
        (rev (sort_key (spec_text k) (rev ts)))"
      by (simp add: sorted_wrt_rev)
    with Desc show ?thesis by (simp add: spec_sort_def inOrder_def sortValue_spec_text)
  qed
next
  fix v
  show "filter (\<lambda>t. sortValue k t = v) (spec_sort k d ts) = filter (\<lambda>t. sortValue k t = v) ts"
  proof (cases d)
    case Asc
    then show ?thesis by (simp add: spec_sort_def sortValue_spec_text sort_key_stable)
  next
    case Desc
    have "filter (\<lambda>t. spec_text k t = v) (rev (sort_key (spec_text k) (rev ts)))
        = rev (filter (\<lambda>t. spec_text k t = v) (sort_key (spec_text k) (rev ts)))"
      by (simp add: rev_filter)
    also have "\<dots> = rev (filter (\<lambda>t. spec_text k t = v) (rev ts))"
      by (simp add: sort_key_stable)
    also have "\<dots> = filter (\<lambda>t. spec_text k t = v) ts"
      by (simp add: rev_filter)
    finally show ?thesis using Desc by (simp add: spec_sort_def sortValue_spec_text)
  qed
qed

lemma filter_range_upt:
  "filter (\<lambda>i. a \<le> i \<and> i < b) [0 ..< n] = [a ..< min b n]"
proof (induction n)
  case 0
  show ?case by simp
next
  case (Suc n)
  consider "a \<le> n \<and> n < b" | "n < a" | "b \<le> n" by linarith
  then show ?case
  proof cases
    case 1
    then have "min b n = n" "min b (Suc n) = Suc n" by simp_all
    with 1 Suc show ?thesis by simp
  next
    case 2
    then have "[a ..< min b n] = []" "[a ..< min b (Suc n)] = []" by simp_all
    with 2 Suc show ?thesis by simp
  next
    case 3
    then have "min b n = b" "min b (Suc n) = b" by simp_all
    with 3 Suc show ?thesis by simp
  qed
qed

lemma currentTasks_spec_slice:
  assumes "1 \<le> p"
  shows "currentTasks fs p = spec_slice fs ((p - 1) * 5) (p * 5)"
proof -
  define a where "a = nat ((p - 1) * 5)"
  have lo: "(p - 1) * 5 = int a" and hi: "p * 5 = int (a + 5)"
    using assms by (simp_all add: a_def)
  have "filter (\<lambda>i. (p - 1) * 5 \<le> int i \<and> int i < p * 5) [0 ..< length fs]
      = filter (\<lambda>i. a \<le> i \<and> i < a + 5) [0 ..< length fs]"
    unfolding lo hi by (intro filter_cong refl) auto
  also have "\<dots> = [a ..< min (a + 5) (length fs)]" by (rule filter_range_upt)
  finally have "spec_slice fs ((p - 1) * 5) (p * 5)
      = map (\<lambda>i. fs ! i) [a ..< min (a + 5) (length fs)]"
    by (simp add: spec_slice_def)
  also have "\<dots> = take 5 (drop a fs)" by (rule take_drop_nth_range [symmetric])
  also have "\<dots> = currentTasks fs p" using assms by (simp add: currentTasks_take_drop a_def)
  finally show ?thesis by simp
qed

text \<open>
  Where the code returns a page, it is the page of the specification; it returns one for
  every list of tasks that have the four searched properties.
\<close>

lemma displayedPage_Inr_spec_pipeline:
  assumes "1 \<le> p" and "displayedPage tasks s \<lparr>key = Some k, direction = d\<rparr> p = Inr pg"
  shows "pg = spec_pipeline tasks s k d p 5"
proof -
  from assms(2) obtain fs
    where f: "filteredTasks (sortedTasks tasks \<lparr>key = Some k, direction = d\<rparr>) s = Inr fs"
      and pg: "pg = currentTasks fs p"
    by (auto simp: displayedPage_def split: sum.splits)
  from f obtain fs0 where f0: "filteredTasks tasks s = Inr fs0"
    and fs: "fs = sortedTasks fs0 \<lparr>key = Some k, direction = d\<rparr>"
    by (auto simp: filteredTasks_sortedTasks split: sum.splits)
  from f0 have "fs0 = spec_filter s tasks" by (rule filteredTasks_Inr_spec)
  with fs have "fs = spec_sort k d (spec_filter s tasks)" by (simp add: sortedTasks_spec_sort)
  with pg assms(1) show ?thesis
    by (simp add: spec_pipeline_def currentTasks_spec_slice)
qed

lemma displayedPage_searchable_spec_pipeline:
  assumes "1 \<le> p" and "\<forall>t\<in>set tasks. searchable t"
  shows "displayedPage tasks s \<lparr>key = Some k, direction = d\<rparr> p
       = Inr (spec_pipeline tasks s k d p 5)"
proof -
  have "\<not> (\<exists>t\<in>set tasks. matchesSearch (toLowerCase s) t = Inl TypeError)"
    using assms(2) by (auto simp: matchesSearch_searchable)
  then have "\<exists>fs0. filteredTasks tasks s = Inr fs0"
    by (simp add: filteredTasks_eq)
  then obtain fs0 where "filteredTasks tasks s = Inr fs0" by blast
  then obtain pg where pg: "displayedPage tasks s \<lparr>key = Some k, direction = d\<rparr> p = Inr pg"
    by (auto simp: displayedPage_def filteredTasks_sortedTasks)
  with displayedPage_Inr_spec_pipeline [OF assms(1) pg] show ?thesis by simp
qed

text \<open>
  C2. The displayed page is not the page of the specification's pipeline for every task
  list: with the search term \<open>report\<close> and a second task whose priority is absent, the
  pipeline of the specification yields the page with the one task whose title contains
  the term, and the list screen throws a \<open>TypeError\<close> while rendering.
\<close>

theorem displayedPage_throws_spec_pipeline_returns:
  "displayedPage [taskA, taskB\<lparr>priority := None\<rparr>, taskC] ''report''
       \<lparr>key = Some KeyDueDate, direction = Asc\<rparr> 1 = Inl TypeError
   \<and> spec_pipeline [taskA, taskB\<lparr>priority := None\<rparr>, taskC] ''report'' KeyDueDate Asc 1 5
       = [taskA]"
  by code_simp

end
